theory Spec2Isabelle
  imports Main "HOL-Library.AList"
begin

section \<open>Python lists: slices and item assignment\<close>

text \<open>
  The backing array is a Python list of integers, indexed by Python integers. Two
  built-in operations of the interpreter are used by \<^verbatim>\<open>task-1.py\<close>:
  the slice \<^verbatim>\<open>array[start:stop]\<close>, which never raises (a negative bound counts
  from the end, and every bound is clamped into \<open>[0, len]\<close>), and the item assignment
  \<^verbatim>\<open>array[index] = value\<close>, which accepts \<open>-len \<le> index < len\<close> and raises
  IndexError otherwise.
\<close>

datatype error = IndexError

definition py_adjust :: "int \<Rightarrow> int \<Rightarrow> int" where
  "py_adjust n i =
     (if i < 0 then (if i + n < 0 then 0 else i + n)
      else if n < i then n else i)"

definition py_slice :: "int list \<Rightarrow> int \<Rightarrow> int \<Rightarrow> int list" where
  "py_slice a start stop =
     (let n = int (length a);
          s = py_adjust n start;
          e = py_adjust n stop
      in take (nat (e - s)) (drop (nat s) a))"

definition py_setitem :: "int list \<Rightarrow> int \<Rightarrow> int \<Rightarrow> error + int list" where
  "py_setitem a index val =
     (let n = int (length a);
          j = (if index < 0 then index + n else index)
      in if 0 \<le> j \<and> j < n then Inr (a[nat j := val]) else Inl IndexError)"

section \<open>The LRU cache\<close>

text \<open>
  \<^verbatim>\<open>LRUCache\<close> holds its capacity and an \<^verbatim>\<open>OrderedDict\<close> from
  \<open>(left, right)\<close> to a sum. The ordered dictionary is an association list in insertion
  order, oldest entry first:
  \<^item> \<^verbatim>\<open>key in d\<close> is \<open>map_of d key \<noteq> None\<close>;
  \<^item> \<^verbatim>\<open>d.pop(key)\<close> is \<open>AList.delete key d\<close>;
  \<^item> \<^verbatim>\<open>d[key] = v\<close> is \<open>AList.update key v d\<close> (in place for a key already there,
    at the end for a new one);
  \<^item> \<^verbatim>\<open>d.popitem(last=False)\<close> drops the head; it is only called on a dictionary
    that has just received an item, so it cannot raise.
\<close>

type_synonym key = "int \<times> int"

record LRUCache =
  capacity :: int
  data :: "(key \<times> int) list"

definition LRUCache_init :: "int \<Rightarrow> error + LRUCache" where
  "LRUCache_init cap = Inr \<lparr>capacity = cap, data = []\<rparr>"

definition LRUCache_get :: "LRUCache \<Rightarrow> key \<Rightarrow> int \<times> LRUCache" where
  "LRUCache_get c k =
     (case map_of (data c) k of
        None \<Rightarrow> (- 1, c)
      | Some val \<Rightarrow> (val, c\<lparr>data := AList.update k val (AList.delete k (data c))\<rparr>))"

definition LRUCache_put :: "LRUCache \<Rightarrow> key \<Rightarrow> int \<Rightarrow> LRUCache" where
  "LRUCache_put c k val =
     (let d1 = (if map_of (data c) k \<noteq> None then AList.delete k (data c) else data c);
          d2 = AList.update k val d1;
          d3 = (if capacity c < int (length d2) then tl d2 else d2)
      in c\<lparr>data := d3\<rparr>)"

definition LRUCache_keys :: "LRUCache \<Rightarrow> key list" where
  "LRUCache_keys c = map fst (data c)"

definition LRUCache_len :: "LRUCache \<Rightarrow> int" where
  "LRUCache_len c = int (length (data c))"

section \<open>Range sums and updates, without and with the cache\<close>

definition range_sum_no_cache :: "int list \<Rightarrow> int \<Rightarrow> int \<Rightarrow> int" where
  "range_sum_no_cache a left right = sum_list (py_slice a left (right + 1))"

definition update_no_cache :: "int list \<Rightarrow> int \<Rightarrow> int \<Rightarrow> error + int list" where
  "update_no_cache a index val = py_setitem a index val"

text \<open>
  \<^verbatim>\<open>range_sum_with_cache\<close> has no raising statement; its model returns the outcome
  of the call (always \<open>Inr\<close>) and the cache as the call leaves it. The array is only
  read. The value \<open>-1\<close> that \<^verbatim>\<open>get\<close> returns for a missing key doubles as the
  miss marker here.
\<close>

definition range_sum_with_cache ::
  "int list \<Rightarrow> int \<Rightarrow> int \<Rightarrow> LRUCache \<Rightarrow> (error + int) \<times> LRUCache" where
  "range_sum_with_cache a left right cache =
     (let k = (left, right);
          (cached, c1) = LRUCache_get cache k
      in if cached \<noteq> - 1 then (Inr cached, c1)
         else (let res = sum_list (py_slice a left (right + 1))
               in (Inr res, LRUCache_put c1 k res)))"

text \<open>
  \<^verbatim>\<open>update_with_cache\<close> writes the array first; an IndexError of that assignment
  leaves the function before anything has changed. Then it collects the keys containing
  \<open>index\<close> and, when there are any, rebuilds the dictionary without them. The model
  returns the outcome, the array and the cache.
\<close>

definition update_with_cache ::
  "int list \<Rightarrow> int \<Rightarrow> int \<Rightarrow> LRUCache \<Rightarrow> (error + unit) \<times> int list \<times> LRUCache" where
  "update_with_cache a index val cache =
     (case py_setitem a index val of
        Inl e \<Rightarrow> (Inl e, a, cache)
      | Inr a' \<Rightarrow>
          (let to_delete = filter (\<lambda>(l, r). l \<le> index \<and> index \<le> r) (LRUCache_keys cache)
           in if to_delete \<noteq> []
              then (Inr (), a',
                    cache\<lparr>data := filter (\<lambda>(k, v). k \<notin> set to_delete) (data cache)\<rparr>)
              else (Inr (), a', cache)))"

section \<open>Running a sequence of queries\<close>

text \<open>
  The driver's queries are tagged tuples \<^verbatim>\<open>("Range", left, right)\<close> and
  \<^verbatim>\<open>("Update", index, value)\<close>. The two loops of the source discard what the
  range sums return; the models collect these values in order, and stop with the error
  when a call raises.
\<close>

datatype query = Range int int | Update int int

fun run_sequence_no_cache :: "int list \<Rightarrow> query list \<Rightarrow> error + int list" where
  "run_sequence_no_cache a [] = Inr []"
| "run_sequence_no_cache a (Range l r # qs) =
     (case run_sequence_no_cache a qs of
        Inl e \<Rightarrow> Inl e
      | Inr vs \<Rightarrow> Inr (range_sum_no_cache a l r # vs))"
| "run_sequence_no_cache a (Update idx val # qs) =
     (case update_no_cache a idx val of
        Inl e \<Rightarrow> Inl e
      | Inr a' \<Rightarrow> run_sequence_no_cache a' qs)"

fun cache_loop :: "int list \<Rightarrow> LRUCache \<Rightarrow> query list \<Rightarrow> error + int list" where
  "cache_loop a cache [] = Inr []"
| "cache_loop a cache (Range l r # qs) =
     (case range_sum_with_cache a l r cache of
        (Inl e, _) \<Rightarrow> Inl e
      | (Inr x, cache') \<Rightarrow>
          (case cache_loop a cache' qs of
             Inl e \<Rightarrow> Inl e
           | Inr vs \<Rightarrow> Inr (x # vs)))"
| "cache_loop a cache (Update idx val # qs) =
     (case update_with_cache a idx val cache of
        (Inl e, _, _) \<Rightarrow> Inl e
      | (Inr _, a', cache') \<Rightarrow> cache_loop a' cache' qs)"

definition run_sequence_with_cache :: "int list \<Rightarrow> query list \<Rightarrow> int \<Rightarrow> error + int list" where
  "run_sequence_with_cache a qs cap =
     (case LRUCache_init cap of
        Inl e \<Rightarrow> Inl e
      | Inr cache \<Rightarrow> cache_loop a cache qs)"

text \<open>The queries the specification admits on an array of length \<open>n\<close>.\<close>

fun valid_query :: "int \<Rightarrow> query \<Rightarrow> bool" where
  "valid_query n (Range l r) = (0 \<le> l \<and> l \<le> r \<and> r < n)"
| "valid_query n (Update idx val) = (0 \<le> idx \<and> idx < n)"

text \<open>Sequences of cache operations, for the properties of the store alone.\<close>

datatype cache_op = Get key | Put key int

fun apply_op :: "LRUCache \<Rightarrow> cache_op \<Rightarrow> LRUCache" where
  "apply_op c (Get k) = snd (LRUCache_get c k)"
| "apply_op c (Put k val) = LRUCache_put c k val"

definition put_all :: "LRUCache \<Rightarrow> (key \<times> int) list \<Rightarrow> LRUCache" where
  "put_all c kvs = foldl (\<lambda>c (k, val). LRUCache_put c k val) c kvs"

text \<open>
  Recency, read off the history of operations alone: \<open>last_use ops k\<close> is the position
  (counted from 1) of the last operation of \<open>ops\<close> that names the key \<open>k\<close>, a put or a
  get, and 0 when none does. For a key that is in the store, the last operation naming it
  is a put or a get that hit: a get that misses leaves the key absent. An entry was
  \<open>used_before\<close> another when its key was last used strictly earlier.
\<close>

fun op_key :: "cache_op \<Rightarrow> key" where
  "op_key (Get k) = k"
| "op_key (Put k val) = k"

definition last_use :: "cache_op list \<Rightarrow> key \<Rightarrow> nat" where
  "last_use ops k = length (dropWhile (\<lambda>x. op_key x \<noteq> k) (rev ops))"

definition used_before :: "cache_op list \<Rightarrow> key \<times> int \<Rightarrow> key \<times> int \<Rightarrow> bool" where
  "used_before ops e e' = (last_use ops (fst e) < last_use ops (fst e'))"

text \<open>Whether an index lies in the inclusive range of a key.\<close>

definition covers :: "int \<Rightarrow> key \<Rightarrow> bool" where
  "covers i k = (fst k \<le> i \<and> i \<le> snd k)"

text \<open>
  The invariant that links cache and array: every cached key is an in-range query of the
  array, and its cached value is the sum that the uncached function computes.
\<close>

definition cache_ok :: "int list \<Rightarrow> LRUCache \<Rightarrow> bool" where
  "cache_ok a c =
     (\<forall>e \<in> set (data c).
        0 \<le> fst (fst e) \<and> fst (fst e) \<le> snd (fst e) \<and> snd (fst e) < int (length a) \<and>
        snd e = range_sum_no_cache a (fst (fst e)) (snd (fst e)))"

section \<open>Construction\<close>

text \<open>
  C8 (as amended). Construction never fails: for every capacity, also one below 1, the
  constructor returns a cache with that capacity and an empty store. The source has no
  check of the capacity.
\<close>

theorem LRUCache_init_always_succeeds:
  "\<exists>c. LRUCache_init cap = Inr c \<and> capacity c = cap \<and> data c = [] \<and> LRUCache_len c = 0"
  by (simp add: LRUCache_init_def LRUCache_len_def)

text \<open>
  C8, the claim as stated, fails: constructing with capacity 0 raises nothing and
  produces a cache instance.
\<close>

theorem LRUCache_init_zero_counterexample:
  "LRUCache_init 0 = Inr \<lparr>capacity = 0, data = []\<rparr> \<and> \<not> isl (LRUCache_init 0)"
  by (simp add: LRUCache_init_def)

section \<open>Facts about the store operations\<close>

lemma update_absent: "k \<notin> fst ` set d \<Longrightarrow> AList.update k v d = d @ [(k, v)]"
  by (induction d) auto

lemma update_after_delete: "AList.update k v (AList.delete k d) = AList.delete k d @ [(k, v)]"
  by (rule update_absent) (rule delete_notin_dom)

lemma map_of_None_iff: "map_of d k = None \<longleftrightarrow> k \<notin> fst ` set d"
  by (simp add: map_of_eq_None_iff)

lemma get_data:
  "data (snd (LRUCache_get c k)) =
     (case map_of (data c) k of None \<Rightarrow> data c | Some v \<Rightarrow> AList.delete k (data c) @ [(k, v)])"
  by (simp add: LRUCache_get_def update_after_delete split: option.split)

lemma get_capacity: "capacity (snd (LRUCache_get c k)) = capacity c"
  by (simp add: LRUCache_get_def split: option.split)

lemma put_data:
  "data (LRUCache_put c k v) =
     (if capacity c < int (length (AList.delete k (data c))) + 1
      then tl (AList.delete k (data c) @ [(k, v)])
      else AList.delete k (data c) @ [(k, v)])"
  by (auto simp add: LRUCache_put_def Let_def update_after_delete update_absent map_of_None_iff)

lemma put_capacity: "capacity (LRUCache_put c k v) = capacity c"
  by (simp add: LRUCache_put_def Let_def)

lemma map_of_filter_key:
  "map_of (filter (\<lambda>e. P (fst e)) d) k = (if P k then map_of d k else None)"
  by (induction d) auto

section \<open>The update path\<close>

text \<open>
  Once the array assignment has succeeded, the cache keeps exactly the entries whose key
  does not contain the index, in their old order: either nothing is to be deleted and the
  dictionary is left as it is, or it is rebuilt without the collected keys.
\<close>

lemma update_with_cache_data:
  "py_setitem a i v = Inr a' \<Longrightarrow>
   update_with_cache a i v c =
     (Inr (), a', c\<lparr>data := filter (\<lambda>e. \<not> covers i (fst e)) (data c)\<rparr>)"
proof -
  assume ok: "py_setitem a i v = Inr a'"
  let ?td = "filter (\<lambda>(l, r). l \<le> i \<and> i \<le> r) (LRUCache_keys c)"
  have mem: "\<And>k. k \<in> set ?td \<longleftrightarrow> k \<in> fst ` set (data c) \<and> covers i k"
    by (auto simp add: LRUCache_keys_def covers_def)
  have flt: "filter (\<lambda>(k, v). k \<notin> set ?td) (data c) = filter (\<lambda>e. \<not> covers i (fst e)) (data c)"
    by (rule filter_cong) (force simp add: LRUCache_keys_def covers_def)+
  show ?thesis
  proof (cases "?td = []")
    case True
    then have "\<forall>e \<in> set (data c). \<not> covers i (fst e)"
      using mem by (metis empty_iff image_eqI list.set(1))
    then have "filter (\<lambda>e. \<not> covers i (fst e)) (data c) = data c"
      by simp
    with True ok show ?thesis
      by (simp add: update_with_cache_def)
  next
    case False
    with ok flt show ?thesis
      by (simp add: update_with_cache_def)
  qed
qed

lemma py_setitem_in_bounds:
  "0 \<le> i \<Longrightarrow> i < int (length a) \<Longrightarrow> py_setitem a i v = Inr (a[nat i := v])"
  by (simp add: py_setitem_def)

lemma py_setitem_out:
  "int (length a) \<le> i \<or> i < - int (length a) \<Longrightarrow> py_setitem a i v = Inl IndexError"
  by (auto simp add: py_setitem_def Let_def)

text \<open>
  C2. For every cache state and every in-bounds \<open>update(i, v)\<close>: the call succeeds,
  every key \<open>(l, r)\<close> with \<open>l \<le> i \<le> r\<close> is absent from the store afterwards, every
  key with \<open>i < l\<close> or \<open>r < i\<close> is bound exactly as before (present with the same value
  if it was cached), and the store is the old one filtered, so the surviving entries keep
  their relative recency order.
\<close>

theorem update_with_cache_exact_invalidation:
  assumes "0 \<le> i" and "i < int (length a)"
  shows "fst (update_with_cache a i v c) = Inr () \<and>
         (let c' = snd (snd (update_with_cache a i v c)) in
            (\<forall>k. covers i k \<longrightarrow> map_of (data c') k = None) \<and>
            (\<forall>k. \<not> covers i k \<longrightarrow> map_of (data c') k = map_of (data c) k) \<and>
            data c' = filter (\<lambda>e. \<not> covers i (fst e)) (data c))"
  using update_with_cache_data [OF py_setitem_in_bounds [OF assms], of v c]
  by (simp add: map_of_filter_key [of "\<lambda>k. \<not> covers i k"])

text \<open>C2 at a concrete input: the entry containing index 1 goes, the other one stays.\<close>

theorem update_with_cache_exact_invalidation_witness:
  "(0::int) \<le> 1 \<and> 1 < int (length [1, 1, 1, 1 :: int]) \<and>
   covers 1 (0, 2) \<and> \<not> covers 1 (2, 3) \<and>
   update_with_cache [1, 1, 1, 1] 1 100 \<lparr>capacity = 2, data = [((2, 3), 2), ((0, 2), 3)]\<rparr>
     = (Inr (), [1, 100, 1, 1], \<lparr>capacity = 2, data = [((2, 3), 2)]\<rparr>)"
  using update_with_cache_exact_invalidation [of 1 "[1, 1, 1, 1]" 100
          "\<lparr>capacity = 2, data = [((2, 3), 2), ((0, 2), 3)]\<rparr>"]
  by (simp add: covers_def update_with_cache_def py_setitem_def LRUCache_keys_def)

text \<open>
  C10. For an in-bounds index that no cached key contains, \<open>update_with_cache\<close> returns
  the cache unchanged (same entries, same order, same capacity), and the array differs
  from the old one in the cell at that index only.
\<close>

theorem update_with_cache_frame:
  assumes "0 \<le> i" and "i < int (length a)"
    and "\<forall>k \<in> set (LRUCache_keys c). \<not> covers i k"
  shows "update_with_cache a i v c = (Inr (), a[nat i := v], c) \<and>
         length (a[nat i := v]) = length a \<and>
         (\<forall>j < length a. j \<noteq> nat i \<longrightarrow> a[nat i := v] ! j = a ! j)"
proof -
  have "filter (\<lambda>e. \<not> covers i (fst e)) (data c) = data c"
    using assms(3) by (simp add: LRUCache_keys_def)
  then show ?thesis
    using update_with_cache_data [OF py_setitem_in_bounds [OF assms(1,2)], of v c]
    by simp
qed

text \<open>C10 at a concrete input.\<close>

theorem update_with_cache_frame_witness:
  "(0::int) \<le> 1 \<and> 1 < int (length [1, 1, 1, 1 :: int]) \<and>
   LRUCache_keys \<lparr>capacity = 2, data = [((2, 3), 2), ((0, 0), 1)]\<rparr> = [(2, 3), (0, 0)] \<and>
   \<not> covers 1 (2, 3) \<and> \<not> covers 1 (0, 0) \<and>
   update_with_cache [1, 1, 1, 1] 1 100 \<lparr>capacity = 2, data = [((2, 3), 2), ((0, 0), 1)]\<rparr>
     = (Inr (), [1, 100, 1, 1], \<lparr>capacity = 2, data = [((2, 3), 2), ((0, 0), 1)]\<rparr>)"
  using update_with_cache_frame [of 1 "[1, 1, 1, 1]"
          "\<lparr>capacity = 2, data = [((2, 3), 2), ((0, 0), 1)]\<rparr>" 100]
  by (simp add: covers_def LRUCache_keys_def)

text \<open>
  C6 (as amended). For every index with \<open>index \<ge> N\<close> or \<open>index < -N\<close>, where \<open>N\<close> is
  the length of the array, \<open>update_with_cache\<close> raises IndexError, and the array and the
  store are as they were before the call.
\<close>

theorem update_with_cache_index_error:
  assumes "int (length a) \<le> i \<or> i < - int (length a)"
  shows "update_with_cache a i v c = (Inl IndexError, a, c)"
  using py_setitem_out [OF assms, of v] by (simp add: update_with_cache_def)

text \<open>C6 (as amended) at a concrete input: index 3 on an array of length 3.\<close>

theorem update_with_cache_index_error_witness:
  "(int (length [1, 2, 3 :: int]) \<le> 3 \<or> 3 < - int (length [1, 2, 3 :: int])) \<and>
   update_with_cache [1, 2, 3] 3 9 \<lparr>capacity = 2, data = [((0, 2), 6)]\<rparr>
     = (Inl IndexError, [1, 2, 3], \<lparr>capacity = 2, data = [((0, 2), 6)]\<rparr>)"
  using update_with_cache_index_error [of "[1, 2, 3]" 3 9 "\<lparr>capacity = 2, data = [((0, 2), 6)]\<rparr>"]
  by simp

text \<open>
  C6, the claim as stated, fails: the index \<open>-1\<close> is outside \<open>[0, N)\<close>, yet the call
  raises nothing and writes the last cell of the array (Python counts a negative index
  from the end).
\<close>

theorem update_with_cache_negative_index_counterexample:
  "\<not> (0 \<le> (- 1 :: int) \<and> - 1 < int (length [1, 2, 3 :: int])) \<and>
   update_with_cache [1, 2, 3] (- 1) 9 \<lparr>capacity = 2, data = []\<rparr>
     = (Inr (), [1, 2, 9], \<lparr>capacity = 2, data = []\<rparr>)"
  by (simp add: update_with_cache_def py_setitem_def LRUCache_keys_def)

section \<open>Looking up after get and put\<close>

lemma get_fst:
  "fst (LRUCache_get c k) = (case map_of (data c) k of None \<Rightarrow> - 1 | Some v \<Rightarrow> v)"
  by (simp add: LRUCache_get_def split: option.split)

lemma get_absent: "map_of (data c) k = None \<Longrightarrow> LRUCache_get c k = (- 1, c)"
  by (simp add: LRUCache_get_def)

lemma map_of_snoc_fresh:
  "k \<notin> fst ` set xs \<Longrightarrow> map_of (xs @ [(k, v)]) k = Some v"
  by (induction xs) auto

lemma map_of_tl_snoc_fresh:
  "k \<notin> fst ` set xs \<Longrightarrow> xs \<noteq> [] \<Longrightarrow> map_of (tl (xs @ [(k, v)])) k = Some v"
  by (cases xs) (auto simp del: map_of_append intro: map_of_snoc_fresh)

lemma delete_snoc_fresh:
  "k \<notin> fst ` set xs \<Longrightarrow> AList.delete k (xs @ [(k, v)]) = xs"
  by (induction xs) auto

lemma delete_tl_snoc_fresh:
  "k \<notin> fst ` set xs \<Longrightarrow> xs \<noteq> [] \<Longrightarrow> AList.delete k (tl (xs @ [(k, v)])) = tl xs"
  by (cases xs) (auto simp add: delete_snoc_fresh)

lemma put_then_lookup:
  assumes "1 \<le> capacity c"
  shows "map_of (data (LRUCache_put c k v)) k = Some v"
proof (cases "AList.delete k (data c) = []")
  case True
  with assms show ?thesis
    by (simp add: put_data)
next
  case False
  then show ?thesis
    using map_of_snoc_fresh [OF delete_notin_dom, of k "data c" v]
      map_of_tl_snoc_fresh [OF delete_notin_dom, of k "data c" v]
    by (simp add: put_data del: map_of_append)
qed

lemma put_lookup_cases:
  "map_of (data (LRUCache_put c k v)) k = None \<or> map_of (data (LRUCache_put c k v)) k = Some v"
proof (cases "AList.delete k (data c) = []")
  case True
  then show ?thesis
    by (simp add: put_data)
next
  case False
  then show ?thesis
    using map_of_snoc_fresh [OF delete_notin_dom, of k "data c" v]
      map_of_tl_snoc_fresh [OF delete_notin_dom, of k "data c" v]
    by (simp add: put_data del: map_of_append)
qed

text \<open>
  C9 (as amended). For every cache state with capacity at least 1, every key \<open>k\<close> and
  every value \<open>v\<close>: immediately after \<open>put(k, v)\<close>, \<open>get(k)\<close> returns \<open>v\<close>.
\<close>

theorem put_get_roundtrip:
  assumes "1 \<le> capacity c"
  shows "fst (LRUCache_get (LRUCache_put c k v) k) = v"
  using put_then_lookup [OF assms, of k v] by (simp add: get_fst)

text \<open>C9 (as amended) at a full cache of capacity 1: the other entry is the one evicted.\<close>

theorem put_get_roundtrip_witness:
  "1 \<le> capacity \<lparr>capacity = 1, data = [((0, 4), 5)]\<rparr> \<and>
   fst (LRUCache_get (LRUCache_put \<lparr>capacity = 1, data = [((0, 4), 5)]\<rparr> (5, 9) 7) (5, 9)) = 7"
  using put_get_roundtrip [of "\<lparr>capacity = 1, data = [((0, 4), 5)]\<rparr>" "(5, 9)" 7]
  by simp

text \<open>
  C9, the claim as stated, fails for a cache of capacity 0 (which the constructor
  accepts): \<open>put\<close> inserts the key, finds the size above the capacity and evicts the
  oldest entry, the key itself, so the following \<open>get\<close> returns \<open>-1\<close>, not 5.
\<close>

theorem put_get_capacity_zero_counterexample:
  "LRUCache_put \<lparr>capacity = 0, data = []\<rparr> (0, 0) 5 = \<lparr>capacity = 0, data = []\<rparr> \<and>
   fst (LRUCache_get (LRUCache_put \<lparr>capacity = 0, data = []\<rparr> (0, 0) 5) (0, 0)) = - 1"
  by (simp add: LRUCache_put_def LRUCache_get_def)

section \<open>The query path\<close>

text \<open>
  C7 (as amended). \<open>range_sum_with_cache\<close> raises no error, whatever its arguments, also
  when they violate \<open>0 \<le> left \<le> right < N\<close>: it returns a value; when the key is not
  cached, the value is the sum of the Python slice \<open>array[left:right+1]\<close> and it is stored
  under \<open>(left, right)\<close> by \<open>put\<close>; for \<open>0 \<le> right < left\<close> that slice is empty and the
  sum is 0. The array is only read.
\<close>

theorem range_sum_with_cache_never_raises:
  "\<not> isl (fst (range_sum_with_cache a l r c)) \<and>
   (map_of (data c) (l, r) = None \<longrightarrow>
      range_sum_with_cache a l r c =
        (Inr (range_sum_no_cache a l r), LRUCache_put c (l, r) (range_sum_no_cache a l r))) \<and>
   (0 \<le> r \<and> r < l \<longrightarrow> range_sum_no_cache a l r = 0)"
proof -
  have "\<not> isl (fst (range_sum_with_cache a l r c))"
    by (simp add: range_sum_with_cache_def Let_def split: prod.split)
  moreover have "map_of (data c) (l, r) = None \<longrightarrow>
      range_sum_with_cache a l r c =
        (Inr (range_sum_no_cache a l r), LRUCache_put c (l, r) (range_sum_no_cache a l r))"
    by (simp add: range_sum_with_cache_def get_absent range_sum_no_cache_def Let_def)
  moreover have "0 \<le> r \<and> r < l \<longrightarrow> range_sum_no_cache a l r = 0"
    by (auto simp add: range_sum_no_cache_def py_slice_def py_adjust_def Let_def)
  ultimately show ?thesis by blast
qed

text \<open>
  C7 (as amended) at concrete inputs: \<open>right = 7\<close> is beyond an array of length 3 and
  the slice is clamped; \<open>left = 9 > right = 7\<close> sums to 0.
\<close>

theorem range_sum_with_cache_never_raises_witness:
  "map_of (data \<lparr>capacity = 1, data = []\<rparr>) (5, 7) = None \<and> (0::int) \<le> 7 \<and> (7::int) < 9 \<and>
   \<not> (7 < int (length [1, 2, 3 :: int])) \<and>
   range_sum_with_cache [1, 2, 3] 1 7 \<lparr>capacity = 1, data = []\<rparr>
     = (Inr 5, \<lparr>capacity = 1, data = [((1, 7), 5)]\<rparr>) \<and>
   range_sum_no_cache [1, 2, 3] 9 7 = 0"
  using range_sum_with_cache_never_raises [of "[1, 2, 3]" 1 7 "\<lparr>capacity = 1, data = []\<rparr>"]
    range_sum_with_cache_never_raises [of "[1, 2, 3]" 9 7 "\<lparr>capacity = 1, data = []\<rparr>"]
  by (simp add: range_sum_no_cache_def py_slice_def py_adjust_def LRUCache_put_def)

text \<open>
  C7, the claim as stated, fails: with \<open>left = 2 > right = 1\<close> the call raises nothing,
  returns 0 and changes the store (the key \<open>(2, 1)\<close> is cached).
\<close>

theorem range_sum_with_cache_invalid_range_counterexample:
  "\<not> ((2::int) \<le> 1) \<and>
   range_sum_with_cache [1, 2, 3] 2 1 \<lparr>capacity = 1, data = []\<rparr>
     = (Inr 0, \<lparr>capacity = 1, data = [((2, 1), 0)]\<rparr>)"
  by (simp add: range_sum_with_cache_def LRUCache_get_def LRUCache_put_def py_slice_def
      py_adjust_def)

section \<open>Cache hits\<close>

text \<open>
  After a \<open>get\<close> that hits, or a \<open>put\<close> into a cache of capacity at least 1, the key is
  the last (most recent) entry; a \<open>get\<close> of the last entry returns the cache as it is.
\<close>

lemma get_mru_noop:
  assumes "data c = xs @ [(k, v)]" and "k \<notin> fst ` set xs"
  shows "LRUCache_get c k = (v, c)"
proof -
  have "map_of (data c) k = Some v"
    using assms by (simp add: map_of_snoc_fresh del: map_of_append)
  moreover have "AList.update k v (AList.delete k (data c)) = data c"
    using assms by (simp add: delete_snoc_fresh update_absent)
  ultimately show ?thesis
    by (simp add: LRUCache_get_def)
qed

lemma put_mru:
  assumes "1 \<le> capacity c"
  shows "\<exists>xs. data (LRUCache_put c k v) = xs @ [(k, v)] \<and> k \<notin> fst ` set xs"
proof (cases "capacity c < int (length (AList.delete k (data c))) + 1")
  case True
  with assms have ne: "AList.delete k (data c) \<noteq> []"
    by auto
  have "k \<notin> fst ` set (tl (AList.delete k (data c)))"
    using delete_notin_dom [of k "data c"] ne by (auto dest: list.set_sel(2))
  with True ne show ?thesis
    by (simp add: put_data)
next
  case False
  then show ?thesis
    using delete_notin_dom [of k "data c"] by (simp add: put_data)
qed

lemma get_hit_mru:
  assumes "map_of (data c) k = Some v"
  shows "\<exists>xs. data (snd (LRUCache_get c k)) = xs @ [(k, v)] \<and> k \<notin> fst ` set xs"
  using assms delete_notin_dom [of k "data c"] by (simp add: get_data)

lemma range_sum_hit:
  assumes "map_of (data c) (l, r) = Some v" and "v \<noteq> - 1"
  shows "range_sum_with_cache a l r c = (Inr v, snd (LRUCache_get c (l, r)))"
  using assms by (simp add: range_sum_with_cache_def LRUCache_get_def Let_def)

lemma range_sum_miss:
  assumes "fst (LRUCache_get c (l, r)) = - 1"
  shows "range_sum_with_cache a l r c =
           (Inr (range_sum_no_cache a l r),
            LRUCache_put (snd (LRUCache_get c (l, r))) (l, r) (range_sum_no_cache a l r))"
  using assms
  by (cases "LRUCache_get c (l, r)")
     (simp add: range_sum_with_cache_def range_sum_no_cache_def Let_def)

lemma range_sum_fst:
  "fst (range_sum_with_cache a l r c) =
     Inr (case map_of (data c) (l, r) of
            None \<Rightarrow> range_sum_no_cache a l r
          | Some v \<Rightarrow> if v \<noteq> - 1 then v else range_sum_no_cache a l r)"
  by (simp add: range_sum_with_cache_def range_sum_no_cache_def LRUCache_get_def Let_def
      split: option.split)

lemma range_sum_mru:
  assumes "data c = xs @ [((l, r), v)]" and "(l, r) \<notin> fst ` set xs" and "v \<noteq> - 1"
  shows "range_sum_with_cache a l r c = (Inr v, c)"
  using get_mru_noop [OF assms(1,2)] assms(3)
  by (simp add: range_sum_with_cache_def)

lemma range_sum_twice:
  assumes "range_sum_with_cache a l r c = (x1, c1)"
  shows "fst (range_sum_with_cache a l r c1) = x1"
    and "1 \<le> capacity c \<Longrightarrow> x1 \<noteq> Inr (- 1) \<Longrightarrow> range_sum_with_cache a' l r c1 = (x1, c1)"
proof -
  let ?k = "(l, r)"
  let ?res = "range_sum_no_cache a l r"
  show "fst (range_sum_with_cache a l r c1) = x1"
  proof (cases "fst (LRUCache_get c ?k) = - 1")
    case True
    from range_sum_miss [OF True, of a] assms
    have x1: "x1 = Inr ?res" and c1: "c1 = LRUCache_put (snd (LRUCache_get c ?k)) ?k ?res"
      by simp_all
    from put_lookup_cases [of "snd (LRUCache_get c ?k)" ?k ?res] c1
    have "map_of (data c1) ?k = None \<or> map_of (data c1) ?k = Some ?res"
      by simp
    then show ?thesis
      using x1 by (auto simp add: range_sum_fst)
  next
    case False
    then obtain v where v: "map_of (data c) ?k = Some v" "v \<noteq> - 1"
      by (auto simp add: get_fst split: option.splits)
    from range_sum_hit [OF v, of a] assms
    have x1: "x1 = Inr v" and c1: "c1 = snd (LRUCache_get c ?k)"
      by simp_all
    from get_hit_mru [OF v(1)] c1 obtain xs
      where "data c1 = xs @ [(?k, v)]" "?k \<notin> fst ` set xs"
      by auto
    from range_sum_mru [OF this v(2), of a] x1 show ?thesis
      by simp
  qed
  show "range_sum_with_cache a' l r c1 = (x1, c1)" if cap: "1 \<le> capacity c" and ne: "x1 \<noteq> Inr (- 1)"
  proof (cases "fst (LRUCache_get c ?k) = - 1")
    case True
    from range_sum_miss [OF True, of a] assms
    have x1: "x1 = Inr ?res" and c1: "c1 = LRUCache_put (snd (LRUCache_get c ?k)) ?k ?res"
      by simp_all
    from cap have "1 \<le> capacity (snd (LRUCache_get c ?k))"
      by (simp add: get_capacity)
    from put_mru [OF this, of ?k ?res] c1 obtain xs
      where "data c1 = xs @ [(?k, ?res)]" "?k \<notin> fst ` set xs"
      by auto
    moreover from ne x1 have "?res \<noteq> - 1"
      by simp
    ultimately show ?thesis
      using x1 by (simp add: range_sum_mru)
  next
    case False
    then obtain v where v: "map_of (data c) ?k = Some v" "v \<noteq> - 1"
      by (auto simp add: get_fst split: option.splits)
    from range_sum_hit [OF v, of a] assms
    have x1: "x1 = Inr v" and c1: "c1 = snd (LRUCache_get c ?k)"
      by simp_all
    from get_hit_mru [OF v(1)] c1 obtain xs
      where "data c1 = xs @ [(?k, v)]" "?k \<notin> fst ` set xs"
      by auto
    from range_sum_mru [OF this v(2), of a'] x1 show ?thesis
      by simp
  qed
qed

text \<open>
  C4 (as amended). For every cache state in which \<open>(l, r)\<close> is present with a stored
  value \<open>v\<close> other than \<open>-1\<close>, a range-sum query for \<open>(l, r)\<close> returns \<open>v\<close> whatever the
  array holds: nothing is recomputed, the array is not read, the key becomes the most
  recent one. Two consecutive range-sum calls for the same \<open>(l, r)\<close> on the same array
  return the same value; when the capacity is at least 1 and that value is not \<open>-1\<close>,
  the second call is a hit: it returns the value for every array and leaves the cache as
  the first call left it.
\<close>

theorem range_sum_with_cache_hit:
  "(map_of (data c) (l, r) = Some v \<and> v \<noteq> - 1 \<longrightarrow>
      (\<forall>a. range_sum_with_cache a l r c = (Inr v, snd (LRUCache_get c (l, r))))) \<and>
   (let (x1, c1) = range_sum_with_cache a l r c in
      fst (range_sum_with_cache a l r c1) = x1 \<and>
      (1 \<le> capacity c \<and> x1 \<noteq> Inr (- 1) \<longrightarrow>
         (\<forall>a'. range_sum_with_cache a' l r c1 = (x1, c1))))"
proof -
  have "map_of (data c) (l, r) = Some v \<and> v \<noteq> - 1 \<longrightarrow>
      (\<forall>a. range_sum_with_cache a l r c = (Inr v, snd (LRUCache_get c (l, r))))"
    using range_sum_hit by blast
  moreover obtain x1 c1 where eq: "range_sum_with_cache a l r c = (x1, c1)"
    by (cases "range_sum_with_cache a l r c")
  moreover have "fst (range_sum_with_cache a l r c1) = x1"
    using range_sum_twice(1) [OF eq] .
  moreover have "1 \<le> capacity c \<and> x1 \<noteq> Inr (- 1) \<longrightarrow>
         (\<forall>a'. range_sum_with_cache a' l r c1 = (x1, c1))"
    using range_sum_twice(2) [OF eq] by blast
  ultimately show ?thesis
    by simp
qed

text \<open>C4 (as amended) at a concrete cache: a hit on \<open>(0, 1)\<close>, then a second hit.\<close>

theorem range_sum_with_cache_hit_witness:
  "map_of (data \<lparr>capacity = 2, data = [((0, 1), 3), ((2, 3), 7)]\<rparr>) (0, 1) = Some 3 \<and>
   (3::int) \<noteq> - 1 \<and> 1 \<le> capacity \<lparr>capacity = 2, data = [((0, 1), 3), ((2, 3), 7)]\<rparr> \<and>
   range_sum_with_cache [1, 2, 3, 4] 0 1 \<lparr>capacity = 2, data = [((0, 1), 3), ((2, 3), 7)]\<rparr>
     = (Inr 3, \<lparr>capacity = 2, data = [((2, 3), 7), ((0, 1), 3)]\<rparr>) \<and>
   range_sum_with_cache [] 0 1 \<lparr>capacity = 2, data = [((2, 3), 7), ((0, 1), 3)]\<rparr>
     = (Inr 3, \<lparr>capacity = 2, data = [((2, 3), 7), ((0, 1), 3)]\<rparr>)"
  using range_sum_with_cache_hit [of "\<lparr>capacity = 2, data = [((0, 1), 3), ((2, 3), 7)]\<rparr>"
          0 1 3 "[1, 2, 3, 4]"]
  by (simp add: range_sum_with_cache_def LRUCache_get_def)

text \<open>
  C4, the claim as stated, fails for the stored value \<open>-1\<close>, which
  \<open>range_sum_with_cache\<close> takes for a miss. A query of \<open>(0, 0)\<close> on the array \<open>[-1]\<close>
  caches \<open>-1\<close>; in that cache state a query of \<open>(0, 0)\<close> recomputes the sum from the
  array: it returns 5 on the array \<open>[5]\<close> and 7 on \<open>[7]\<close>, not the stored value.
\<close>

theorem range_sum_with_cache_sentinel_counterexample:
  "range_sum_with_cache [- 1] 0 0 \<lparr>capacity = 1, data = []\<rparr>
     = (Inr (- 1), \<lparr>capacity = 1, data = [((0, 0), - 1)]\<rparr>) \<and>
   map_of (data \<lparr>capacity = 1, data = [((0, 0), - 1)]\<rparr>) (0, 0) = Some (- 1) \<and>
   range_sum_with_cache [5] 0 0 \<lparr>capacity = 1, data = [((0, 0), - 1)]\<rparr>
     = (Inr 5, \<lparr>capacity = 1, data = [((0, 0), 5)]\<rparr>) \<and>
   range_sum_with_cache [7] 0 0 \<lparr>capacity = 1, data = [((0, 0), - 1)]\<rparr>
     = (Inr 7, \<lparr>capacity = 1, data = [((0, 0), 7)]\<rparr>)"
  by (simp add: range_sum_with_cache_def LRUCache_get_def LRUCache_put_def py_slice_def
      py_adjust_def Let_def)

section \<open>Capacity and eviction order\<close>

lemma length_delete_member:
  "(k, v) \<in> set d \<Longrightarrow> length (AList.delete k d) < length d"
  by (induction d) (auto simp add: less_Suc_eq_le length_delete_le)

lemma length_delete_present:
  "k \<in> fst ` set d \<Longrightarrow> length (AList.delete k d) < length d"
  by (auto intro: length_delete_member)

lemma get_len_le: "LRUCache_len (snd (LRUCache_get c k)) \<le> LRUCache_len c"
proof (cases "map_of (data c) k")
  case None
  then show ?thesis by (simp add: LRUCache_get_def)
next
  case (Some v)
  then have "k \<in> fst ` set (data c)"
    using map_of_None_iff [of "data c" k] by simp
  from length_delete_present [OF this] Some show ?thesis
    by (simp add: LRUCache_len_def get_data)
qed

lemma put_len_le:
  assumes "LRUCache_len c \<le> capacity c"
  shows "LRUCache_len (LRUCache_put c k v) \<le> capacity c"
  using assms length_delete_le [of k "data c"]
  by (auto simp add: LRUCache_len_def put_data)

lemma apply_op_capacity: "capacity (apply_op c op) = capacity c"
  by (cases op) (simp_all add: get_capacity put_capacity)

lemma apply_op_len_le:
  assumes "LRUCache_len c \<le> capacity c"
  shows "LRUCache_len (apply_op c op) \<le> capacity c"
proof (cases op)
  case (Get k)
  with assms get_len_le [of c k] show ?thesis by simp
next
  case (Put k v)
  with put_len_le [OF assms] show ?thesis by simp
qed

lemma foldl_apply_op_inv:
  assumes "LRUCache_len c \<le> capacity c"
  shows "LRUCache_len (foldl apply_op c ops) \<le> capacity c \<and>
         capacity (foldl apply_op c ops) = capacity c"
  using assms
proof (induction ops arbitrary: c)
  case Nil
  then show ?case by simp
next
  case (Cons op ops)
  have "LRUCache_len (apply_op c op) \<le> capacity (apply_op c op)"
    using apply_op_len_le [OF Cons.prems] by (simp add: apply_op_capacity)
  from Cons.IH [OF this] show ?case
    by (simp add: apply_op_capacity)
qed

lemma put_new_full:
  assumes "map_of (data c) k = None" and "LRUCache_len c = capacity c" and "1 \<le> capacity c"
  shows "data (LRUCache_put c k v) = tl (data c) @ [(k, v)]" and "data c \<noteq> []"
proof -
  from assms(2,3) show ne: "data c \<noteq> []"
    by (auto simp add: LRUCache_len_def)
  from assms(1) have "AList.delete k (data c) = data c"
    by (simp add: map_of_None_iff)
  with assms(2) ne show "data (LRUCache_put c k v) = tl (data c) @ [(k, v)]"
    by (simp add: put_data LRUCache_len_def)
qed

lemma put_new_room:
  assumes "map_of (data c) k = None" and "LRUCache_len c < capacity c"
  shows "data (LRUCache_put c k v) = data c @ [(k, v)]"
proof -
  from assms(1) have "AList.delete k (data c) = data c"
    by (simp add: map_of_None_iff)
  with assms(2) show ?thesis
    by (simp add: put_data LRUCache_len_def)
qed

lemma put_existing:
  assumes "map_of (data c) k \<noteq> None" and "LRUCache_len c \<le> capacity c"
  shows "data (LRUCache_put c k v) = AList.delete k (data c) @ [(k, v)]"
proof -
  from assms(1) have "k \<in> fst ` set (data c)"
    by (simp add: map_of_None_iff)
  from length_delete_present [OF this] assms(2) show ?thesis
    by (simp add: put_data LRUCache_len_def)
qed

text \<open>
  The store is kept in the order of last use: by induction over the history, the entries
  of the store reached from the empty cache are strictly sorted by \<open>last_use\<close>, oldest
  first. Every \<open>get\<close> that hits and every \<open>put\<close> moves its key to the end, where the
  newest use belongs.
\<close>

lemma last_use_snoc:
  "last_use (ops @ [x]) k = (if op_key x = k then Suc (length ops) else last_use ops k)"
  by (simp add: last_use_def)

lemma last_use_le: "last_use ops k \<le> length ops"
  unfolding last_use_def using length_dropWhile_le [of _ "rev ops"] by (metis length_rev)

lemma sorted_wrt_tl: "sorted_wrt P xs \<Longrightarrow> sorted_wrt P (tl xs)"
  by (cases xs) simp_all

lemma used_before_other_key:
  assumes "sorted_wrt (used_before ops) d" and "\<forall>e \<in> set d. fst e \<noteq> op_key x"
  shows "sorted_wrt (used_before (ops @ [x])) d"
proof (rule sorted_wrt_mono_rel [OF _ assms(1)])
  fix e e'
  assume "e \<in> set d" and "e' \<in> set d" and ub: "used_before ops e e'"
  with assms(2) have "op_key x \<noteq> fst e" and "op_key x \<noteq> fst e'"
    by auto
  with ub show "used_before (ops @ [x]) e e'"
    by (simp add: used_before_def last_use_snoc)
qed

lemma used_before_delete_snoc:
  assumes "sorted_wrt (used_before ops) d"
  shows "sorted_wrt (used_before (ops @ [x])) (AList.delete (op_key x) d @ [(op_key x, v)])"
proof -
  let ?k = "op_key x"
  let ?d = "AList.delete ?k d"
  have srt: "sorted_wrt (used_before ops) ?d"
    using assms by (simp add: AList.delete_eq sorted_wrt_filter)
  have keys: "\<forall>e \<in> set ?d. fst e \<noteq> ?k"
    using delete_notin_dom [of ?k d] by (metis image_eqI)
  have "sorted_wrt (used_before (ops @ [x])) ?d"
    using used_before_other_key [OF srt keys] .
  moreover have "\<forall>e \<in> set ?d. used_before (ops @ [x]) e (?k, v)"
  proof
    fix e
    assume "e \<in> set ?d"
    with keys have "fst e \<noteq> ?k" by simp
    with last_use_le [of ops "fst e"] show "used_before (ops @ [x]) e (?k, v)"
      by (simp add: used_before_def last_use_snoc)
  qed
  ultimately show ?thesis
    by (simp add: sorted_wrt_append)
qed

lemma used_before_absent:
  assumes "sorted_wrt (used_before ops) d" and "op_key x \<notin> fst ` set d"
  shows "sorted_wrt (used_before (ops @ [x])) d"
proof -
  from assms(2) have "\<forall>e \<in> set d. fst e \<noteq> op_key x"
    by (metis image_eqI)
  from used_before_other_key [OF assms(1) this] show ?thesis .
qed

lemma apply_op_used_before:
  assumes "sorted_wrt (used_before ops) (data c)"
  shows "sorted_wrt (used_before (ops @ [x])) (data (apply_op c x))"
proof (cases x)
  case (Get k)
  show ?thesis
  proof (cases "map_of (data c) k")
    case None
    then have "op_key x \<notin> fst ` set (data c)"
      using Get by (simp add: map_of_None_iff)
    from used_before_absent [OF assms this] None Get show ?thesis
      by (simp add: get_data)
  next
    case (Some v)
    with used_before_delete_snoc [OF assms, of x v] Get show ?thesis
      by (simp add: get_data)
  qed
next
  case (Put k v)
  with used_before_delete_snoc [OF assms, of x v] show ?thesis
    by (simp add: put_data sorted_wrt_tl)
qed

lemma foldl_apply_op_used_before:
  assumes "data c = []"
  shows "sorted_wrt (used_before ops) (data (foldl apply_op c ops))"
proof (induction ops rule: rev_induct)
  case Nil
  with assms show ?case by simp
next
  case (snoc x ops)
  from apply_op_used_before [OF snoc.IH, of x] show ?case
    by simp
qed

lemma used_before_head:
  assumes "sorted_wrt (used_before ops) d" and "d \<noteq> []"
  shows "\<forall>e \<in> set (tl d). used_before ops (hd d) e" and "hd d \<notin> set (tl d)"
proof -
  from assms obtain x xs where d: "d = x # xs"
    by (cases d) auto
  with assms(1) show *: "\<forall>e \<in> set (tl d). used_before ops (hd d) e"
    by simp
  show "hd d \<notin> set (tl d)"
    using * by (auto simp add: used_before_def)
qed

text \<open>
  C3. For a cache constructed with capacity \<open>C \<ge> 1\<close> and every finite sequence \<open>ops\<close> of
  \<open>put\<close> and \<open>get\<close> operations, the number of entries is at most \<open>C\<close> afterwards (so
  also after every prefix), and the store \<open>c\<close> so reached is sorted by last use in
  \<open>ops\<close>. A \<open>put\<close> of a new key into the full store removes exactly one entry, the head,
  and appends the new one; the head is the least recently used entry: every other entry
  was last used later in \<open>ops\<close>. A \<open>put\<close> of a new key into a store that has room, and
  a \<open>put\<close> of a key already there, evict nothing.
\<close>

theorem capacity_invariant:
  assumes "1 \<le> C" and "LRUCache_init C = Inr c0"
  shows "LRUCache_len (foldl apply_op c0 ops) \<le> C \<and>
         (let c = foldl apply_op c0 ops in
            sorted_wrt (used_before ops) (data c) \<and>
            (map_of (data c) k = None \<and> LRUCache_len c = C \<longrightarrow>
               data c \<noteq> [] \<and> data (LRUCache_put c k v) = tl (data c) @ [(k, v)] \<and>
               hd (data c) \<notin> set (data (LRUCache_put c k v)) \<and>
               set (data (LRUCache_put c k v)) = insert (k, v) (set (data c) - {hd (data c)}) \<and>
               (\<forall>e \<in> set (data c). e \<noteq> hd (data c) \<longrightarrow> used_before ops (hd (data c)) e)) \<and>
            (map_of (data c) k = None \<and> LRUCache_len c < C \<longrightarrow>
               data (LRUCache_put c k v) = data c @ [(k, v)]) \<and>
            (map_of (data c) k \<noteq> None \<longrightarrow>
               data (LRUCache_put c k v) = AList.delete k (data c) @ [(k, v)]))"
proof -
  let ?c = "foldl apply_op c0 ops"
  from assms(2) have c0: "capacity c0 = C" "data c0 = []"
    by (auto simp add: LRUCache_init_def)
  with assms(1) have "LRUCache_len c0 \<le> capacity c0"
    by (simp add: LRUCache_len_def)
  from foldl_apply_op_inv [OF this, of ops] c0(1)
  have inv: "LRUCache_len ?c \<le> C" "capacity ?c = C"
    by simp_all
  have srt: "sorted_wrt (used_before ops) (data ?c)"
    using foldl_apply_op_used_before [OF c0(2)] .
  have full: "data ?c \<noteq> [] \<and> data (LRUCache_put ?c k v) = tl (data ?c) @ [(k, v)] \<and>
               hd (data ?c) \<notin> set (data (LRUCache_put ?c k v)) \<and>
               set (data (LRUCache_put ?c k v)) = insert (k, v) (set (data ?c) - {hd (data ?c)}) \<and>
               (\<forall>e \<in> set (data ?c). e \<noteq> hd (data ?c) \<longrightarrow> used_before ops (hd (data ?c)) e)"
    if new: "map_of (data ?c) k = None" and len: "LRUCache_len ?c = C"
  proof -
    from len inv(2) have len': "LRUCache_len ?c = capacity ?c" by simp
    from inv(2) assms(1) have cap: "1 \<le> capacity ?c" by simp
    have ne: "data ?c \<noteq> []"
      using put_new_full(2) [OF new len' cap] .
    have eq: "data (LRUCache_put ?c k v) = tl (data ?c) @ [(k, v)]"
      using put_new_full(1) [OF new len' cap] .
    from ne obtain x xs where d: "data ?c = x # xs"
      by (cases "data ?c") auto
    have hd_tl: "hd (data ?c) \<notin> set (tl (data ?c))"
      and lru: "\<forall>e \<in> set (tl (data ?c)). used_before ops (hd (data ?c)) e"
      using used_before_head [OF srt ne] by simp_all
    from new have "k \<notin> fst ` set (data ?c)"
      by (simp add: map_of_None_iff)
    with d have hd_new: "hd (data ?c) \<noteq> (k, v)"
      by auto
    from hd_tl hd_new eq have gone: "hd (data ?c) \<notin> set (data (LRUCache_put ?c k v))"
      by simp
    have sets: "set (data (LRUCache_put ?c k v)) = insert (k, v) (set (data ?c) - {hd (data ?c)})"
      using hd_tl eq d by auto
    have "\<forall>e \<in> set (data ?c). e \<noteq> hd (data ?c) \<longrightarrow> used_before ops (hd (data ?c)) e"
      using lru d by auto
    with ne eq gone sets show ?thesis
      by blast
  qed
  have room: "map_of (data ?c) k = None \<and> LRUCache_len ?c < C \<longrightarrow>
               data (LRUCache_put ?c k v) = data ?c @ [(k, v)]"
    using put_new_room [of ?c k v] inv(2) by simp
  have existing: "map_of (data ?c) k \<noteq> None \<longrightarrow>
               data (LRUCache_put ?c k v) = AList.delete k (data ?c) @ [(k, v)]"
    using put_existing [of ?c k v] inv by simp
  from full have full': "map_of (data ?c) k = None \<and> LRUCache_len ?c = C \<longrightarrow>
               data ?c \<noteq> [] \<and> data (LRUCache_put ?c k v) = tl (data ?c) @ [(k, v)] \<and>
               hd (data ?c) \<notin> set (data (LRUCache_put ?c k v)) \<and>
               set (data (LRUCache_put ?c k v)) = insert (k, v) (set (data ?c) - {hd (data ?c)}) \<and>
               (\<forall>e \<in> set (data ?c). e \<noteq> hd (data ?c) \<longrightarrow> used_before ops (hd (data ?c)) e)"
    by blast
  show ?thesis
    unfolding Let_def using inv(1) srt full' room existing by (intro conjI)
qed

text \<open>
  C3 at capacity 2: after two puts and a get of the first key the store is full; the
  second key was last used at step 2, the first at step 3, and putting a new key evicts
  the second, the least recently used entry.
\<close>

theorem capacity_invariant_witness:
  "(1::int) \<le> 2 \<and> LRUCache_init 2 = Inr \<lparr>capacity = 2, data = []\<rparr> \<and>
   foldl apply_op \<lparr>capacity = 2, data = []\<rparr> [Put (0, 4) 5, Put (5, 9) 6, Get (0, 4)]
     = \<lparr>capacity = 2, data = [((5, 9), 6), ((0, 4), 5)]\<rparr> \<and>
   map_of (data \<lparr>capacity = 2, data = [((5, 9), 6), ((0, 4), 5)]\<rparr>) (0, 2) = None \<and>
   LRUCache_len \<lparr>capacity = 2, data = [((5, 9), 6), ((0, 4), 5)]\<rparr> = 2 \<and>
   last_use [Put (0, 4) 5, Put (5, 9) 6, Get (0, 4)] (5, 9) = 2 \<and>
   last_use [Put (0, 4) 5, Put (5, 9) 6, Get (0, 4)] (0, 4) = 3 \<and>
   used_before [Put (0, 4) 5, Put (5, 9) 6, Get (0, 4)] ((5, 9), 6) ((0, 4), 5) \<and>
   data (LRUCache_put \<lparr>capacity = 2, data = [((5, 9), 6), ((0, 4), 5)]\<rparr> (0, 2) 3)
     = [((0, 4), 5), ((0, 2), 3)]"
  using capacity_invariant [of 2 "\<lparr>capacity = 2, data = []\<rparr>"
          "[Put (0, 4) 5, Put (5, 9) 6, Get (0, 4)]" "(0, 2)" 3]
  by (simp add: LRUCache_init_def LRUCache_len_def LRUCache_put_def LRUCache_get_def
      last_use_def used_before_def)

text \<open>Putting distinct keys into an empty cache keeps the last \<open>capacity\<close> of them.\<close>

lemma put_all_snoc: "put_all c (kvs @ [(k, v)]) = LRUCache_put (put_all c kvs) k v"
  by (simp add: put_all_def)

lemma put_all_fresh:
  assumes "1 \<le> capacity c" and "data c = []" and "distinct (map fst kvs)"
  shows "data (put_all c kvs) = drop (length kvs - nat (capacity c)) kvs \<and>
         capacity (put_all c kvs) = capacity c"
  using assms(3)
proof (induction kvs rule: rev_induct)
  case Nil
  with assms(2) show ?case by (simp add: put_all_def)
next
  case (snoc e kvs)
  obtain k v where e: "e = (k, v)" by (cases e)
  let ?d = "drop (length kvs - nat (capacity c)) kvs"
  from snoc have IH: "data (put_all c kvs) = ?d" "capacity (put_all c kvs) = capacity c"
    and fresh: "k \<notin> fst ` set kvs"
    by (auto simp add: e)
  have "k \<notin> fst ` set ?d"
    using fresh by (auto dest: in_set_dropD)
  then have del: "AList.delete k ?d = ?d"
    by simp
  from fresh have del': "AList.delete k kvs = kvs"
    by simp
  show ?case
  proof (cases "nat (capacity c) \<le> length kvs")
    case True
    with assms(1) have "length ?d = nat (capacity c)" "?d \<noteq> []"
      by auto
    with True assms(1) show ?thesis
      by (simp add: e put_all_snoc put_data IH del put_capacity tl_drop Suc_diff_le drop_Suc)
  next
    case False
    then show ?thesis
      by (simp add: e put_all_snoc put_data IH del' put_capacity)
  qed
qed

text \<open>
  C5. For a cache of capacity \<open>C \<ge> 1\<close>, starting empty, after putting \<open>C + 1\<close> distinct
  keys in order with no get in between, the store holds exactly the entries from the
  second on, in order: the first key is absent and every later key is present with its
  value.
\<close>

theorem lru_evicts_first_inserted:
  assumes "1 \<le> C" and "LRUCache_init C = Inr c0"
    and "distinct (map fst kvs)" and "int (length kvs) = C + 1"
  shows "data (put_all c0 kvs) = tl kvs \<and>
         map_of (data (put_all c0 kvs)) (fst (hd kvs)) = None \<and>
         (\<forall>e \<in> set (tl kvs). map_of (data (put_all c0 kvs)) (fst e) = Some (snd e))"
proof -
  from assms(2) have c0: "capacity c0 = C" "data c0 = []"
    by (auto simp add: LRUCache_init_def)
  from assms(1,4) have len: "length kvs - nat C = 1"
    by linarith
  from put_all_fresh [of c0 kvs] c0 assms(1,3) len
  have d: "data (put_all c0 kvs) = tl kvs"
    by (simp add: drop_Suc)
  from len obtain x xs where kvs: "kvs = x # xs"
    by (cases kvs) auto
  with assms(3) have "fst x \<notin> fst ` set xs" and dist: "distinct (map fst xs)"
    by auto
  then have "map_of xs (fst x) = None"
    by (simp add: map_of_None_iff)
  moreover have "\<forall>e \<in> set xs. map_of xs (fst e) = Some (snd e)"
    using dist by auto
  ultimately show ?thesis
    using d kvs by simp
qed

text \<open>C5 at capacity 2 with three keys.\<close>

theorem lru_evicts_first_inserted_witness:
  "(1::int) \<le> 2 \<and> LRUCache_init 2 = Inr \<lparr>capacity = 2, data = []\<rparr> \<and>
   distinct (map fst [((0::int, 4::int), 5::int), ((5, 9), 6), ((0, 2), 3)]) \<and>
   int (length [((0::int, 4::int), 5::int), ((5, 9), 6), ((0, 2), 3)]) = 2 + 1 \<and>
   data (put_all \<lparr>capacity = 2, data = []\<rparr> [((0, 4), 5), ((5, 9), 6), ((0, 2), 3)])
     = [((5, 9), 6), ((0, 2), 3)] \<and>
   map_of (data (put_all \<lparr>capacity = 2, data = []\<rparr> [((0, 4), 5), ((5, 9), 6), ((0, 2), 3)]))
     (0, 4) = None"
  using lru_evicts_first_inserted [of 2 "\<lparr>capacity = 2, data = []\<rparr>"
          "[((0, 4), 5), ((5, 9), 6), ((0, 2), 3)]"]
  by (simp add: LRUCache_init_def)

section \<open>The cache does not change what range sums return\<close>

text \<open>
  For an in-range query the slice is the plain segment of the array, and a write outside
  the segment does not change it.
\<close>

lemma py_slice_valid:
  assumes "0 \<le> l" and "l \<le> r" and "r < int (length a)"
  shows "py_slice a l (r + 1) = take (nat (r + 1 - l)) (drop (nat l) a)"
  using assms by (simp add: py_slice_def py_adjust_def)

lemma py_slice_update_outside:
  assumes "0 \<le> l" and "l \<le> r" and "r < int (length a)" and "0 \<le> i" and "i < l \<or> r < i"
  shows "py_slice (a[nat i := v]) l (r + 1) = py_slice a l (r + 1)"
proof -
  have "take (nat (r + 1 - l)) (drop (nat l) (a[nat i := v]))
          = take (nat (r + 1 - l)) (drop (nat l) a)"
  proof (cases "i < l")
    case True
    with assms(4) have "nat i < nat l" by simp
    then show ?thesis by (simp add: drop_update_cancel)
  next
    case False
    with assms(5) have ri: "r < i" by simp
    with assms(1,2) have "nat l \<le> nat i" and "nat (r + 1 - l) \<le> nat i - nat l"
      by simp_all
    then show ?thesis by (simp add: drop_update_swap take_update_cancel)
  qed
  then show ?thesis
    using assms(1,2,3) by (simp add: py_slice_valid)
qed

text \<open>
  \<open>get\<close> and \<open>put\<close> add no entry other than the one put, so both keep \<open>cache_ok\<close>; an
  in-bounds update keeps it for the updated array, because the entries left are those
  whose range does not contain the index.
\<close>

lemma set_get_subset: "set (data (snd (LRUCache_get c k))) \<subseteq> set (data c)"
  by (auto simp add: get_data AList.delete_eq split: option.splits dest: map_of_SomeD)

lemma set_put_subset: "set (data (LRUCache_put c k v)) \<subseteq> insert (k, v) (set (data c))"
proof -
  let ?d = "AList.delete k (data c) @ [(k, v)]"
  have tl_sub: "set (tl ?d) \<subseteq> set ?d"
    by (cases ?d) auto
  have "set ?d \<subseteq> insert (k, v) (set (data c))"
    by (auto simp add: AList.delete_eq)
  with tl_sub have "set (tl ?d) \<subseteq> insert (k, v) (set (data c))"
    by (rule subset_trans)
  then show ?thesis
    by (auto simp add: put_data AList.delete_eq)
qed

lemma cache_ok_get: "cache_ok a c \<Longrightarrow> cache_ok a (snd (LRUCache_get c k))"
  using set_get_subset [of c k] by (auto simp add: cache_ok_def)

lemma cache_ok_put:
  assumes "cache_ok a c" and "0 \<le> l" and "l \<le> r" and "r < int (length a)"
  shows "cache_ok a (LRUCache_put c (l, r) (range_sum_no_cache a l r))"
  using set_put_subset [of c "(l, r)" "range_sum_no_cache a l r"] assms
  by (auto simp add: cache_ok_def)

lemma cache_ok_lookup:
  assumes "cache_ok a c" and "map_of (data c) (l, r) = Some v"
  shows "v = range_sum_no_cache a l r"
  using assms map_of_SomeD [OF assms(2)] by (auto simp add: cache_ok_def)

lemma range_sum_with_cache_correct:
  assumes "cache_ok a c" and "0 \<le> l" and "l \<le> r" and "r < int (length a)"
  shows "\<exists>c'. range_sum_with_cache a l r c = (Inr (range_sum_no_cache a l r), c') \<and>
              cache_ok a c'"
proof (cases "fst (LRUCache_get c (l, r)) = - 1")
  case True
  from cache_ok_put [OF cache_ok_get [OF assms(1)] assms(2,3,4)] range_sum_miss [OF True]
  show ?thesis by simp
next
  case False
  then obtain v where v: "map_of (data c) (l, r) = Some v" "v \<noteq> - 1"
    by (auto simp add: get_fst split: option.splits)
  from cache_ok_lookup [OF assms(1) v(1)] range_sum_hit [OF v] cache_ok_get [OF assms(1)]
  show ?thesis by simp
qed

lemma update_with_cache_correct:
  assumes "cache_ok a c" and "0 \<le> i" and "i < int (length a)"
  shows "\<exists>c'. update_with_cache a i v c = (Inr (), a[nat i := v], c') \<and>
              cache_ok (a[nat i := v]) c'"
proof -
  let ?c' = "c\<lparr>data := filter (\<lambda>e. \<not> covers i (fst e)) (data c)\<rparr>"
  have "cache_ok (a[nat i := v]) ?c'"
    unfolding cache_ok_def
  proof
    fix e
    assume "e \<in> set (data ?c')"
    then have mem: "e \<in> set (data c)" and nc: "\<not> covers i (fst e)"
      by simp_all
    from mem assms(1)
    have ok: "0 \<le> fst (fst e)" "fst (fst e) \<le> snd (fst e)" "snd (fst e) < int (length a)"
      "snd e = range_sum_no_cache a (fst (fst e)) (snd (fst e))"
      by (auto simp add: cache_ok_def)
    from nc have "i < fst (fst e) \<or> snd (fst e) < i"
      by (auto simp add: covers_def)
    from py_slice_update_outside [OF ok(1,2,3) assms(2) this, of v] ok
    show "0 \<le> fst (fst e) \<and> fst (fst e) \<le> snd (fst e) \<and>
          snd (fst e) < int (length (a[nat i := v])) \<and>
          snd e = range_sum_no_cache (a[nat i := v]) (fst (fst e)) (snd (fst e))"
      by (simp add: range_sum_no_cache_def)
  qed
  with update_with_cache_data [OF py_setitem_in_bounds [OF assms(2,3)], of v c]
  show ?thesis by simp
qed

lemma cache_loop_correct:
  assumes "cache_ok a c" and "\<forall>q \<in> set qs. valid_query (int (length a)) q"
  shows "cache_loop a c qs = run_sequence_no_cache a qs \<and> \<not> isl (run_sequence_no_cache a qs)"
  using assms
proof (induction qs arbitrary: a c)
  case Nil
  then show ?case by simp
next
  case (Cons q qs)
  show ?case
  proof (cases q)
    case (Range l r)
    with Cons.prems(2) have v: "0 \<le> l" "l \<le> r" "r < int (length a)"
      by simp_all
    from range_sum_with_cache_correct [OF Cons.prems(1) v] obtain c'
      where c': "range_sum_with_cache a l r c = (Inr (range_sum_no_cache a l r), c')"
        "cache_ok a c'"
      by blast
    from Cons.prems(2) have "\<forall>q \<in> set qs. valid_query (int (length a)) q"
      by simp
    from Cons.IH [OF c'(2) this] c'(1) Range show ?thesis
      by (cases "run_sequence_no_cache a qs") simp_all
  next
    case (Update i v)
    with Cons.prems(2) have v: "0 \<le> i" "i < int (length a)"
      by simp_all
    from update_with_cache_correct [OF Cons.prems(1) v] obtain c'
      where c': "update_with_cache a i v c = (Inr (), a[nat i := v], c')"
        "cache_ok (a[nat i := v]) c'"
      by blast
    from Cons.prems(2) have "\<forall>q \<in> set qs. valid_query (int (length (a[nat i := v]))) q"
      by simp
    from Cons.IH [OF c'(2) this] c'(1) Update v show ?thesis
      by (simp add: update_no_cache_def py_setitem_in_bounds)
  qed
qed

text \<open>
  C1. For every finite sequence of range-sum and update operations (each range query with
  \<open>0 \<le> left \<le> right < N\<close>, each update with \<open>0 \<le> index < N\<close>) run from the same initial
  array, the run with a fresh cache of any capacity \<open>C \<ge> 1\<close> and the run without cache
  both complete without error and return the same sequence of range-sum values.
\<close>

theorem cached_results_equal_uncached:
  assumes "1 \<le> C" and "\<forall>q \<in> set qs. valid_query (int (length a)) q"
  shows "run_sequence_with_cache a qs C = run_sequence_no_cache a qs \<and>
         \<not> isl (run_sequence_no_cache a qs)"
proof -
  have "cache_ok a \<lparr>capacity = C, data = []\<rparr>"
    by (simp add: cache_ok_def)
  from cache_loop_correct [OF this assms(2)] show ?thesis
    by (simp add: run_sequence_with_cache_def LRUCache_init_def)
qed

text \<open>
  C1 on the scenario of the specification (ten ones, capacity 2), extended by a query
  of the range that the update has invalidated.
\<close>

theorem cached_results_equal_uncached_witness:
  "(1::int) \<le> 2 \<and>
   list_all (valid_query (int (length [1, 1, 1, 1, 1, 1, 1, 1, 1, 1 :: int])))
     [Range 0 4, Range 5 9, Range 0 2, Update 1 100, Range 5 9, Range 0 2] \<and>
   run_sequence_with_cache [1, 1, 1, 1, 1, 1, 1, 1, 1, 1]
     [Range 0 4, Range 5 9, Range 0 2, Update 1 100, Range 5 9, Range 0 2] 2
     = Inr [5, 5, 3, 5, 102] \<and>
   run_sequence_no_cache [1, 1, 1, 1, 1, 1, 1, 1, 1, 1]
     [Range 0 4, Range 5 9, Range 0 2, Update 1 100, Range 5 9, Range 0 2]
     = Inr [5, 5, 3, 5, 102]"
  using cached_results_equal_uncached [of 2
          "[Range 0 4, Range 5 9, Range 0 2, Update 1 100, Range 5 9, Range 0 2]"
          "[1, 1, 1, 1, 1, 1, 1, 1, 1, 1]"]
  by (simp add: range_sum_no_cache_def update_no_cache_def py_setitem_def py_slice_def
      py_adjust_def)

end
